theory Spec2Isabelle
  imports Main "HOL-Library.Word"
begin

unbundle bit_operations_syntax

section \<open>The fsnotify process of the daemon (daemon/process/fsnotify/fsnotify.go)\<close>

subsection \<open>Events of the watch primitive\<close>

text \<open>
  \<^verbatim>\<open>fsnotify.Op\<close> is a \<^verbatim>\<open>uint32\<close> bit set; \<^verbatim>\<open>fsnotify.Event\<close> is the struct
  \<^verbatim>\<open>{Name string; Op Op}\<close>. The five bits are those of the fsnotify library.
\<close>

type_synonym Op = "32 word"

definition Create :: Op where "Create = 1"
definition Write :: Op where "Write = 2"
definition Remove :: Op where "Remove = 4"
definition Rename :: Op where "Rename = 8"
definition Chmod :: Op where "Chmod = 16"

record Event =
  Name :: string
  Op :: Op

type_synonym error = string

subsection \<open>Dispatch and Touch\<close>

text \<open>
  What \<^verbatim>\<open>Dispatch\<close> does, in program order: the trace line of the overflow case with its two
  numbers (\<^verbatim>\<open>l\<close> and \<^verbatim>\<open>l-10\<close>), and per event of the loop the trace line and the spawned
  goroutine \<^verbatim>\<open>go func(ev fsnotify.Event) { f.Touch(ev.Name) }(ev)\<close> with its argument.
\<close>

datatype dispatch_action =
    LogDiscarding int int
  | LogTouching string
  | GoTouch Event

definition Dispatch :: "Event list \<Rightarrow> dispatch_action list" where
  "Dispatch events =
     (let l = int (length events) in
      if l = 0 then []
      else
        let (pre, events') =
              (if l > 10 then ([LogDiscarding l (l - 10)], take 10 events)
               else ([], events))
        in pre @ concat (map (\<lambda>ev. [LogTouching (Name ev), GoTouch ev]) events'))"

text \<open>The events for which a touch goroutine was spawned, in spawn order.\<close>

fun spawned :: "dispatch_action list \<Rightarrow> Event list" where
  "spawned [] = []"
| "spawned (GoTouch ev # as) = ev # spawned as"
| "spawned (_ # as) = spawned as"

text \<open>
  The guest execution capability: only \<^verbatim>\<open>RunQuiet(command, args...)\<close> is used. A guest is
  modelled by the outcome it gives to each invocation.
\<close>

type_synonym invocation = "string \<times> string list"
type_synonym GuestActions = "string \<Rightarrow> string list \<Rightarrow> error option"

text \<open>\<^verbatim>\<open>Touch\<close> returns \<^verbatim>\<open>f.guest.RunQuiet("touch", file)\<close>: the invocation made and its outcome.\<close>

definition Touch :: "GuestActions \<Rightarrow> string \<Rightarrow> invocation \<times> error option" where
  "Touch guest file = ((''touch'', [file]), guest ''touch'' [file])"

text \<open>
  Running the goroutines spawned by \<^verbatim>\<open>Dispatch\<close>: each calls \<^verbatim>\<open>f.Touch(ev.Name)\<close> and drops
  the result. The list is in spawn order (the goroutines share nothing, so their
  interleaving changes only the order of the invocations).
\<close>

definition run_spawned :: "GuestActions \<Rightarrow> dispatch_action list \<Rightarrow> (invocation \<times> error option) list" where
  "run_spawned guest as = map (\<lambda>ev. Touch guest (Name ev)) (spawned as)"

subsection \<open>Directory entries and the file tree below a watch root\<close>

text \<open>
  \<^verbatim>\<open>fs.FileMode\<close> is a \<^verbatim>\<open>uint32\<close>; the three constants are those of Go's \<^verbatim>\<open>io/fs\<close>.
  A directory entry carries the type bits returned by \<^verbatim>\<open>Type()\<close>: \<^verbatim>\<open>ModeDir\<close> for a directory,
  \<^verbatim>\<open>ModeSymlink\<close> for a symbolic link (whatever it points to), no bit for a regular file.
\<close>

type_synonym FileMode = "32 word"

definition ModeDir :: FileMode where "ModeDir = 0x80000000"
definition ModeSymlink :: FileMode where "ModeSymlink = 0x8000000"
definition ModePerm :: FileMode where "ModePerm = 0x1FF"

definition Perm :: "FileMode \<Rightarrow> FileMode" where
  "Perm m = m AND ModePerm"

datatype kind = Directory | Symlink | Regular

text \<open>
  A node of the file tree: the entry's name and kind, whether reading it as a directory
  succeeds, and the entries found in it. For a symbolic link the entries are those of the
  directory the link points to (seen only by whoever follows the link).
\<close>

datatype node = Node (entry_name: string) (entry_kind: kind) (readable: bool) (entries: "node list")

fun Type :: "node \<Rightarrow> FileMode" where
  "Type (Node n Directory r cs) = ModeDir"
| "Type (Node n Symlink r cs) = ModeSymlink"
| "Type (Node n Regular r cs) = 0"

definition IsDir :: "node \<Rightarrow> bool" where
  "IsDir d = (Type d AND ModeDir \<noteq> 0)"

text \<open>\<^verbatim>\<open>strings.HasPrefix\<close>, \<^verbatim>\<open>strings.HasSuffix\<close> and \<^verbatim>\<open>strings.TrimSuffix\<close>.\<close>

definition HasPrefix :: "string \<Rightarrow> string \<Rightarrow> bool" where
  "HasPrefix s pre = (length pre \<le> length s \<and> take (length pre) s = pre)"

definition HasSuffix :: "string \<Rightarrow> string \<Rightarrow> bool" where
  "HasSuffix s suf = (length suf \<le> length s \<and> drop (length s - length suf) s = suf)"

definition TrimSuffix :: "string \<Rightarrow> string \<Rightarrow> string" where
  "TrimSuffix s suf = (if HasSuffix s suf then take (length s - length suf) s else s)"

text \<open>
  A path of the walk is the list of entry names from the root of the walked file system
  down. \<^verbatim>\<open>fs.WalkDir(root, ".", fn)\<close> names the root \<^verbatim>\<open>"."\<close> and an entry below it by its
  names joined with slashes (\<^verbatim>\<open>path.Join\<close>); that string is what \<^verbatim>\<open>watcher.Add\<close> receives.
\<close>

type_synonym path = "string list"

fun path_string :: "path \<Rightarrow> string" where
  "path_string [] = ''.''"
| "path_string [n] = n"
| "path_string (n # ns) = n @ ''/'' @ path_string ns"

text \<open>The watch primitive, modelled by the outcome \<^verbatim>\<open>watcher.Add\<close> gives for each path.\<close>

type_synonym Watcher = "path \<Rightarrow> error option"

subsection \<open>The walk of \<^verbatim>\<open>watch\<close>\<close>

datatype walk_action =
    LogWalkError path
  | LogSkippedHidden path
  | WatcherAdd path
  | LogAddError path
  | LogAdded path

text \<open>
  What a walk function hands back to \<^verbatim>\<open>fs.WalkDir\<close>: \<^verbatim>\<open>nil\<close>, the sentinels \<^verbatim>\<open>SkipDir\<close> and
  \<^verbatim>\<open>SkipAll\<close>, or another error; \<open>Panicked\<close> stands for a run-time panic, which unwinds
  through \<^verbatim>\<open>WalkDir\<close>.
\<close>

datatype ret = NoError | SkipDir | SkipAll | Fail error | Panicked

text \<open>
  The function literal that \<^verbatim>\<open>watch\<close> passes to \<^verbatim>\<open>fs.WalkDir\<close> (lines 156 to 174). Its
  entry argument is \<^verbatim>\<open>nil\<close> when \<^verbatim>\<open>WalkDir\<close> could not stat the root; the literal calls
  \<^verbatim>\<open>d.Name()\<close> all the same, a nil dereference.
\<close>

definition walkFn :: "Watcher \<Rightarrow> path \<Rightarrow> node option \<Rightarrow> error option \<Rightarrow> walk_action list \<times> ret" where
  "walkFn watcher p d err =
     (let t0 = (if err \<noteq> None then [LogWalkError p] else []) in
      case d of
        None \<Rightarrow> (t0, Panicked)
      | Some e \<Rightarrow>
          if entry_name e \<noteq> ''.'' \<and> HasPrefix (entry_name e) ''.'' then
            (t0 @ [LogSkippedHidden p], SkipDir)
          else if IsDir e then
            (if watcher p \<noteq> None then (t0 @ [WatcherAdd p, LogAddError p], NoError)
             else (t0 @ [WatcherAdd p, LogAdded p], NoError))
          else (t0, NoError))"

text \<open>
  Go's \<^verbatim>\<open>io/fs\<close>, \<^verbatim>\<open>walkDir\<close> (the standard library, fixed here with the function literal of
  \<^verbatim>\<open>watch\<close>): call the function on the entry; stop there on an error or on a non-directory,
  turning \<^verbatim>\<open>SkipDir\<close> on a directory into success; read the directory (through \<^verbatim>\<open>os.DirFS\<close> a
  failed read yields no entries) and report a failure by a second call; then walk the
  entries in order, where \<^verbatim>\<open>SkipDir\<close> from an entry leaves the loop.
\<close>

fun walkDir :: "Watcher \<Rightarrow> path \<Rightarrow> node \<Rightarrow> walk_action list \<times> ret"
  and walkEntries :: "Watcher \<Rightarrow> path \<Rightarrow> node list \<Rightarrow> walk_action list \<times> ret" where
  "walkDir watcher name (Node n k r cs) =
     (case walkFn watcher name (Some (Node n k r cs)) None of
        (t1, r1) \<Rightarrow>
          if r1 \<noteq> NoError \<or> \<not> IsDir (Node n k r cs) then
            (t1, if r1 = SkipDir \<and> IsDir (Node n k r cs) then NoError else r1)
          else if r then
            (case walkEntries watcher name cs of (t3, r3) \<Rightarrow> (t1 @ t3, r3))
          else
            (case walkFn watcher name (Some (Node n k r cs)) (Some ''readdir'') of
               (t2, r2) \<Rightarrow>
                 if r2 \<noteq> NoError then
                   (t1 @ t2, if r2 = SkipDir \<and> IsDir (Node n k r cs) then NoError else r2)
                 else (t1 @ t2, NoError)))"
| "walkEntries watcher name [] = ([], NoError)"
| "walkEntries watcher name (d1 # ds) =
     (case walkDir watcher (name @ [entry_name d1]) d1 of
        (t, r) \<Rightarrow>
          if r = NoError then (case walkEntries watcher name ds of (t', r') \<Rightarrow> (t @ t', r'))
          else if r = SkipDir then (t, NoError)
          else (t, r))"

text \<open>
  What \<^verbatim>\<open>os.DirFS(dir)\<close> shows of a watch root: \<^verbatim>\<open>Stat\<close> of \<^verbatim>\<open>"."\<close> fails, or it yields an entry
  named \<^verbatim>\<open>"."\<close> of some kind with its entries.
\<close>

datatype DirFS = StatError | Root kind bool "node list"

text \<open>Go's \<^verbatim>\<open>fs.WalkDir(fsys, ".", fn)\<close>.\<close>

fun WalkDir :: "Watcher \<Rightarrow> DirFS \<Rightarrow> walk_action list \<times> ret" where
  "WalkDir watcher StatError =
     (case walkFn watcher [] None (Some ''stat'') of
        (t, r) \<Rightarrow> (t, if r = SkipDir \<or> r = SkipAll then NoError else r))"
| "WalkDir watcher (Root k r cs) =
     (case walkDir watcher [] (Node ''.'' k r cs) of
        (t, r) \<Rightarrow> (t, if r = SkipDir \<or> r = SkipAll then NoError else r))"

subsection \<open>\<^verbatim>\<open>traverseDir\<close>\<close>

datatype traverse_action =
    LogDirlistError path
  | TraverseAdd path
  | TraverseLogAddError path
  | TraverseLogAdded path
  | LogSkipHiddenChild string path
  | LogSkipSymlink string path

text \<open>
  \<^verbatim>\<open>traverseDir(watcher, parent, dir)\<close>, called on the node that \<^verbatim>\<open>filepath.Join(parent, dir)\<close>
  names. \<^verbatim>\<open>os.ReadDir\<close> fails on what is not a directory (it follows a link) and on an
  unreadable one. No function of the file calls \<^verbatim>\<open>traverseDir\<close> except itself.
\<close>

fun traverseDir :: "Watcher \<Rightarrow> path \<Rightarrow> node \<Rightarrow> traverse_action list \<times> error option"
  and traverseChildren :: "Watcher \<Rightarrow> path \<Rightarrow> node list \<Rightarrow> traverse_action list \<times> error option" where
  "traverseDir watcher parent (Node n k r cs) =
     (let current = parent @ [n] in
      if k = Regular \<or> \<not> r then ([LogDirlistError current], None)
      else
        (case traverseChildren watcher current cs of
           (t, e) \<Rightarrow>
             (TraverseAdd current #
              (if watcher current \<noteq> None then TraverseLogAddError current
               else TraverseLogAdded current) # t, e)))"
| "traverseChildren watcher current [] = ([], None)"
| "traverseChildren watcher current (child # rest) =
     (if \<not> IsDir child then traverseChildren watcher current rest
      else if HasPrefix (entry_name child) ''.'' then
        (case traverseChildren watcher current rest of
           (t, e) \<Rightarrow> (LogSkipHiddenChild (entry_name child) current # t, e))
      else if Perm (Type child) AND ModeSymlink = ModeSymlink then
        (case traverseChildren watcher current rest of
           (t, e) \<Rightarrow> (LogSkipSymlink (entry_name child) current # t, e))
      else
        (case traverseDir watcher current child of
           (t, Some e) \<Rightarrow> (t, Some (''error traversing child directory: '' @ e))
         | (t, None) \<Rightarrow>
             (case traverseChildren watcher current rest of (t', e') \<Rightarrow> (t @ t', e'))))"

subsection \<open>The process: state, environment and observable actions\<close>

record fsnotifyProcess =
  guest :: "GuestActions option"
  dirs :: "string list"
  alive :: bool

definition New :: fsnotifyProcess where
  "New = \<lparr>guest = None, dirs = [], alive = False\<rparr>"

definition Alive :: "fsnotifyProcess \<Rightarrow> error option" where
  "Alive f = (if alive f then None else Some ''not running'')"

text \<open>
  What \<^verbatim>\<open>ctx.Value(CtxKeyGuest())\<close> holds: nothing, a value that is not a
  \<^verbatim>\<open>environment.GuestActions\<close>, or a guest.
\<close>

datatype ctx_value = Absent | WrongType | Guest GuestActions

text \<open>
  One round of the \<^verbatim>\<open>select\<close> in \<^verbatim>\<open>waitForLima\<close>: the context is done, or the five-second
  timer fired and \<^verbatim>\<open>limautil.Instance()\<close> gave an error or an instance that is running or not.
\<close>

datatype gate_signal = GateDone | GateAfter "error + bool"

text \<open>One round of the \<^verbatim>\<open>select\<close> in the loop of \<^verbatim>\<open>watch\<close>; \<open>None\<close> is a closed channel.\<close>

datatype loop_signal =
    EventsRecv "Event option"
  | ErrorsRecv "error option"
  | AfterFired
  | CtxDone

text \<open>A mount, modelled by what its \<^verbatim>\<open>CleanPath()\<close> returns.\<close>

type_synonym Mount = "error + string"

record env =
  ctx_guest :: ctx_value
  gate :: "gate_signal list"
  instance_config :: "error + Mount list"
  new_watcher :: "error option"
  dirfs :: "string \<Rightarrow> DirFS"
  watcher_add :: Watcher
  signals :: "loop_signal list"

datatype action =
    LogWaitingForLima
  | CallInstance
  | CallInstanceConfig
  | CallCleanPath Mount
  | CallNewWatcher
  | Walk string walk_action
  | StoreAlive bool
  | LogGotEvent Event
  | LogWatchError error
  | GoDispatch "Event list"
  | CallWatcherClose

text \<open>
  How a call ends: it returns \<^verbatim>\<open>nil\<close> or an error, it panics, or it is still blocked in a
  \<^verbatim>\<open>select\<close> when the observed signals end.
\<close>

datatype result = Returned "error option" | Panic | Running

subsection \<open>\<^verbatim>\<open>waitForLima\<close>, \<^verbatim>\<open>watch\<close> and \<^verbatim>\<open>Start\<close>\<close>

text \<open>The flag says whether \<^verbatim>\<open>waitForLima\<close> returned (it returns no value).\<close>

fun waitForLima :: "gate_signal list \<Rightarrow> action list \<times> bool" where
  "waitForLima [] = ([LogWaitingForLima], False)"
| "waitForLima (GateDone # ss) = ([LogWaitingForLima], True)"
| "waitForLima (GateAfter (Inr True) # ss) = ([LogWaitingForLima, CallInstance], True)"
| "waitForLima (GateAfter i # ss) =
     (case waitForLima ss of (t, b) \<Rightarrow> (LogWaitingForLima # CallInstance # t, b))"

text \<open>The loop of \<^verbatim>\<open>Start\<close> over the mounts (lines 73 to 79).\<close>

fun resolve_mounts :: "Mount list \<Rightarrow> fsnotifyProcess \<Rightarrow> action list \<times> error option \<times> fsnotifyProcess" where
  "resolve_mounts [] f = ([], None, f)"
| "resolve_mounts (Inl e # ms) f =
     ([CallCleanPath (Inl e)], Some (''error retrieving mount path: '' @ e), f)"
| "resolve_mounts (Inr p # ms) f =
     (case resolve_mounts ms (f\<lparr>dirs := dirs f @ [TrimSuffix p ''/'']\<rparr>) of
        (t, e, f') \<Rightarrow> (CallCleanPath (Inr p) # t, e, f'))"

text \<open>The loop of \<^verbatim>\<open>watch\<close> over \<^verbatim>\<open>f.dirs\<close> (lines 154 to 179).\<close>

fun walk_roots :: "Watcher \<Rightarrow> (string \<Rightarrow> DirFS) \<Rightarrow> string list \<Rightarrow> action list \<times> ret" where
  "walk_roots watcher fsys [] = ([], NoError)"
| "walk_roots watcher fsys (dir # ds) =
     (case WalkDir watcher (fsys dir) of
        (t, r) \<Rightarrow>
          if r = Panicked then (map (Walk dir) t, Panicked)
          else if r \<noteq> NoError then (map (Walk dir) t, Fail ''error in directory walk'')
          else (case walk_roots watcher fsys ds of (t', r') \<Rightarrow> (map (Walk dir) t @ t', r')))"

text \<open>
  The accumulation loop of \<^verbatim>\<open>watch\<close> (lines 186 to 220): the second argument is the slice
  \<^verbatim>\<open>events\<close> of the current window; the timer ends the window, hands the slice to a
  \<^verbatim>\<open>Dispatch\<close> goroutine and starts over with an empty slice.
\<close>

fun watch_loop :: "loop_signal list \<Rightarrow> Event list \<Rightarrow> action list \<times> result" where
  "watch_loop [] events = ([], Running)"
| "watch_loop (EventsRecv None # ss) events = ([], Returned (Some ''watcher channel closed''))"
| "watch_loop (EventsRecv (Some ev) # ss) events =
     (case watch_loop ss (if Op ev AND Write = Write then events @ [ev] else events) of
        (t, r) \<Rightarrow> (LogGotEvent ev # t, r))"
| "watch_loop (ErrorsRecv None # ss) events = ([], Returned (Some ''watcher channel closed''))"
| "watch_loop (ErrorsRecv (Some e) # ss) events =
     (case watch_loop ss events of (t, r) \<Rightarrow> (LogWatchError e # t, r))"
| "watch_loop (AfterFired # ss) events =
     (case watch_loop ss [] of (t, r) \<Rightarrow> (GoDispatch events # t, r))"
| "watch_loop (CtxDone # ss) events = ([], Returned None)"

text \<open>The deferred \<^verbatim>\<open>watcher.Close()\<close> runs when \<^verbatim>\<open>watch\<close> returns or panics.\<close>

definition watch :: "env \<Rightarrow> fsnotifyProcess \<Rightarrow> action list \<times> result \<times> fsnotifyProcess" where
  "watch e f =
     (case new_watcher e of
        Some err \<Rightarrow> ([CallNewWatcher], Returned (Some (''error creating watcher: '' @ err)), f)
      | None \<Rightarrow>
          (case walk_roots (watcher_add e) (dirfs e) (dirs f) of
             (t, Panicked) \<Rightarrow> (CallNewWatcher # t @ [CallWatcherClose], Panic, f)
           | (t, Fail err) \<Rightarrow> (CallNewWatcher # t @ [CallWatcherClose], Returned (Some err), f)
           | (t, _) \<Rightarrow>
               (case watch_loop (signals e) [] of
                  (t', r) \<Rightarrow>
                    (CallNewWatcher # t @ StoreAlive True # t'
                       @ (if r = Running then [] else [CallWatcherClose]),
                     r, f\<lparr>alive := True\<rparr>))))"

definition Start :: "env \<Rightarrow> fsnotifyProcess \<Rightarrow> action list \<times> result \<times> fsnotifyProcess" where
  "Start e f =
     (case ctx_guest e of
        Guest g \<Rightarrow>
          (let f1 = f\<lparr>guest := Some g\<rparr> in
           case waitForLima (gate e) of
             (t1, False) \<Rightarrow> (t1, Running, f1)
           | (t1, True) \<Rightarrow>
               (case instance_config e of
                  Inl err \<Rightarrow>
                    (t1 @ [CallInstanceConfig], Returned (Some ''error retrieving config''), f1)
                | Inr mounts \<Rightarrow>
                    (case resolve_mounts mounts f1 of
                       (t2, Some err, f2) \<Rightarrow>
                         (t1 @ CallInstanceConfig # t2, Returned (Some err), f2)
                     | (t2, None, f2) \<Rightarrow>
                         (case watch e f2 of
                            (t3, r, f3) \<Rightarrow> (t1 @ CallInstanceConfig # t2 @ t3, r, f3)))))
      | _ \<Rightarrow> ([], Returned (Some ''environment.GuestAction missing in context''), f))"

subsection \<open>Reading a trace\<close>

text \<open>The batches handed to \<^verbatim>\<open>Dispatch\<close> goroutines, in the order they were spawned.\<close>

fun dispatched :: "action list \<Rightarrow> Event list list" where
  "dispatched [] = []"
| "dispatched (GoDispatch evs # as) = evs # dispatched as"
| "dispatched (_ # as) = dispatched as"

text \<open>
  The notifications that arrived in each window closed by the timer, in arrival order, of
  whatever kind: the second argument holds those of the window still open.
\<close>

fun arrivals :: "loop_signal list \<Rightarrow> Event list \<Rightarrow> Event list list" where
  "arrivals [] cur = []"
| "arrivals (EventsRecv None # ss) cur = []"
| "arrivals (EventsRecv (Some ev) # ss) cur = arrivals ss (cur @ [ev])"
| "arrivals (ErrorsRecv None # ss) cur = []"
| "arrivals (ErrorsRecv (Some e) # ss) cur = arrivals ss cur"
| "arrivals (AfterFired # ss) cur = cur # arrivals ss []"
| "arrivals (CtxDone # ss) cur = []"

definition includes_write :: "Event \<Rightarrow> bool" where
  "includes_write ev = (Op ev AND Write = Write)"

text \<open>The value of \<^verbatim>\<open>f.alive\<close> after a run of actions, from its value before.\<close>

fun flag_after :: "bool \<Rightarrow> action list \<Rightarrow> bool" where
  "flag_after b [] = b"
| "flag_after b (StoreAlive v # as) = flag_after v as"
| "flag_after b (_ # as) = flag_after b as"

fun is_store :: "action \<Rightarrow> bool" where
  "is_store (StoreAlive v) = True"
| "is_store _ = False"

fun is_walk :: "action \<Rightarrow> bool" where
  "is_walk (Walk dir a) = True"
| "is_walk _ = False"

subsection \<open>Reading a walk\<close>

text \<open>The test of the walk function for a hidden entry, and the two actions of a registration.\<close>

definition hidden :: "string \<Rightarrow> bool" where
  "hidden n = (n \<noteq> ''.'' \<and> HasPrefix n ''.'')"

definition add_actions :: "Watcher \<Rightarrow> path \<Rightarrow> walk_action list" where
  "add_actions w p = [WatcherAdd p, if w p \<noteq> None then LogAddError p else LogAdded p]"








text \<open>The strings handed to \<^verbatim>\<open>watcher.Add\<close> in a walk, in call order.\<close>

fun added_strings :: "walk_action list \<Rightarrow> string list" where
  "added_strings [] = []"
| "added_strings (WatcherAdd p # as) = path_string p # added_strings as"
| "added_strings (_ # as) = added_strings as"

subsection \<open>Concrete inputs\<close>

definition ev_write :: "string \<Rightarrow> Event" where
  "ev_write n = \<lparr>Name = n, Op = Write\<rparr>"

definition twelve_writes :: "Event list" where
  "twelve_writes = map ev_write
     [''/src/a'', ''/src/b'', ''/src/c'', ''/src/d'', ''/src/e'', ''/src/f'',
      ''/src/g'', ''/src/h'', ''/src/i'', ''/src/j'', ''/src/k'', ''/src/l'']"

definition quiet_guest :: GuestActions where
  "quiet_guest = (\<lambda>cmd args. None)"

definition accepting :: Watcher where
  "accepting = (\<lambda>p. None)"

definition mixed_signals :: "loop_signal list" where
  "mixed_signals =
     [EventsRecv (Some (ev_write ''/src/a'')),
      EventsRecv (Some \<lparr>Name = ''/src/b'', Op = Create\<rparr>),
      ErrorsRecv (Some ''overflow''),
      EventsRecv (Some \<lparr>Name = ''/src/c'', Op = Create OR Write\<rparr>),
      EventsRecv (Some \<lparr>Name = ''/src/d'', Op = Chmod\<rparr>),
      AfterFired,
      EventsRecv (Some \<lparr>Name = ''/src/e'', Op = Remove\<rparr>),
      AfterFired,
      EventsRecv (Some (ev_write ''/src/f'')),
      CtxDone]"

definition no_guest_env :: env where
  "no_guest_env =
     \<lparr>ctx_guest = Absent, gate = [GateAfter (Inr True)], instance_config = Inr [Inr ''/src''],
      new_watcher = None, dirfs = (\<lambda>dir. Root Directory True []), watcher_add = accepting,
      signals = [CtxDone]\<rparr>"

definition env_tree :: "node list" where
  "env_tree = [Node ''.env'' Regular True [], Node ''src'' Directory True []]"


definition one_root :: "string \<Rightarrow> DirFS" where
  "one_root = (\<lambda>dir. Root Directory False [Node ''src'' Directory True []])"


definition running_env :: env where
  "running_env =
     \<lparr>ctx_guest = Guest quiet_guest, gate = [GateAfter (Inr False), GateAfter (Inr True)],
      instance_config = Inr [Inr ''/src/''], new_watcher = None,
      dirfs = (\<lambda>dir. Root Directory True [Node ''a'' Directory True []]),
      watcher_add = accepting,
      signals = [EventsRecv (Some (ev_write ''a/x'')), AfterFired, CtxDone]\<rparr>"


definition locked_root_env :: env where
  "locked_root_env =
     \<lparr>ctx_guest = Guest quiet_guest, gate = [GateAfter (Inr True)],
      instance_config = Inr [Inr ''/src''], new_watcher = None,
      dirfs = (\<lambda>dir. StatError), watcher_add = accepting, signals = [CtxDone]\<rparr>"

section \<open>Properties\<close>

lemma spawned_append: "spawned (xs @ ys) = spawned xs @ spawned ys"
  by (induction xs rule: spawned.induct) simp_all

lemma spawned_touch_loop:
  "spawned (concat (map (\<lambda>ev. [LogTouching (Name ev), GoTouch ev]) evs)) = evs"
  by (induction evs) simp_all

lemma spawned_Dispatch: "spawned (Dispatch events) = take 10 events"
  by (simp add: Dispatch_def Let_def spawned_append spawned_touch_loop)

subsection \<open>Dispatch\<close>

text \<open>
  C1. Whatever batch a window accumulated, \<^verbatim>\<open>Dispatch\<close> spawns a touch for at most 10 events.
  A batch of more than 10 keeps exactly its first 10 events in arrival order, and the trace
  line records the batch length and the number of events dropped; a batch of at most 10 is
  kept whole.
\<close>

theorem Dispatch_overflow_cap:
  "length (spawned (Dispatch events)) \<le> 10
   \<and> (10 < length events \<longrightarrow>
        spawned (Dispatch events) = take 10 events
        \<and> LogDiscarding (int (length events)) (int (length (drop 10 events))) \<in> set (Dispatch events))
   \<and> (length events \<le> 10 \<longrightarrow> spawned (Dispatch events) = events)"
proof -
  have cap: "length (spawned (Dispatch events)) \<le> 10"
    by (simp add: spawned_Dispatch)
  have over: "LogDiscarding (int (length events)) (int (length (drop 10 events))) \<in> set (Dispatch events)"
    if "10 < length events"
    using that by (auto simp: Dispatch_def Let_def)
  show ?thesis
    using cap over by (simp add: spawned_Dispatch)
qed

theorem Dispatch_overflow_cap_witness:
  "10 < length twelve_writes
   \<and> spawned (Dispatch twelve_writes) = take 10 twelve_writes
   \<and> LogDiscarding 12 2 \<in> set (Dispatch twelve_writes)"
  using Dispatch_overflow_cap [of twelve_writes]
  by (simp add: twelve_writes_def)

text \<open>
  C10. Handed an empty batch, \<^verbatim>\<open>Dispatch\<close> returns at once: it logs no truncation, spawns no
  goroutine, and so no touch is invoked on the guest.
\<close>

theorem Dispatch_empty:
  "Dispatch [] = [] \<and> spawned (Dispatch []) = [] \<and> run_spawned g (Dispatch []) = []"
  by (simp add: Dispatch_def run_spawned_def)

text \<open>
  C7. The touches invoked for a batch are, one for one and in spawn order, the invocations
  \<^verbatim>\<open>RunQuiet("touch", ev.Name)\<close> of the events kept by the cap; the list of invocations is the
  same whatever outcomes the guest gives, so no touch depends on the result of another.
\<close>

theorem Dispatch_touches:
  "map fst (run_spawned g (Dispatch events)) = map (\<lambda>ev. (''touch'', [Name ev])) (take 10 events)
   \<and> map fst (run_spawned g (Dispatch events)) = map fst (run_spawned g' (Dispatch events))
   \<and> map snd (run_spawned g (Dispatch events)) = map (\<lambda>ev. g ''touch'' [Name ev]) (take 10 events)"
  by (simp add: run_spawned_def spawned_Dispatch Touch_def comp_def)

subsection \<open>Start without a guest\<close>

text \<open>
  C9. When the context holds no guest, or a value of another type, \<^verbatim>\<open>Start\<close> returns the error
  at once: the trace is empty (no readiness poll, no mount resolution, no walk) and the
  process state is unchanged.
\<close>

theorem Start_guest_missing:
  assumes "ctx_guest e = Absent \<or> ctx_guest e = WrongType"
  shows "Start e f = ([], Returned (Some ''environment.GuestAction missing in context''), f)"
  using assms by (auto simp: Start_def)

theorem Start_guest_missing_witness:
  "ctx_guest no_guest_env = Absent
   \<and> Start no_guest_env New = ([], Returned (Some ''environment.GuestAction missing in context''), New)"
proof -
  have h: "ctx_guest no_guest_env = Absent \<or> ctx_guest no_guest_env = WrongType"
    by (simp add: no_guest_env_def)
  show ?thesis
    using h Start_guest_missing [OF h, of New] by (simp add: no_guest_env_def)
qed

subsection \<open>The accumulation loop\<close>

lemma watch_loop_EventsRecv:
  "watch_loop (EventsRecv (Some ev) # ss) events =
     (case watch_loop ss (if includes_write ev then events @ [ev] else events) of
        (t, r) \<Rightarrow> (LogGotEvent ev # t, r))"
  by (simp add: includes_write_def)

lemma dispatched_watch_loop:
  "dispatched (fst (watch_loop ss (filter includes_write cur))) =
     map (filter includes_write) (arrivals ss cur)"
proof (induction ss cur rule: arrivals.induct)
  case (3 ev ss cur)
  have "filter includes_write (cur @ [ev]) =
          (if includes_write ev then filter includes_write cur @ [ev] else filter includes_write cur)"
    by simp
  with 3 show ?case
    by (simp only: watch_loop_EventsRecv arrivals.simps case_prod_unfold fst_conv dispatched.simps)
next
  case (6 ss cur)
  from 6 [simplified] show ?case
    by (simp add: case_prod_unfold)
qed (simp_all add: case_prod_unfold)

lemma includes_write_kinds:
  "includes_write ev \<Longrightarrow> Op ev \<notin> {Create, Remove, Rename, Chmod}"
  by (auto simp: includes_write_def Create_def Write_def Remove_def Rename_def Chmod_def)

text \<open>
  C6. The batches spawned by the loop are, window by window, the notifications that arrived
  in the window with those whose kind does not include write left out, the others in arrival
  order; so every event of a batch includes write, and none is a pure create, remove, rename
  or permission change.
\<close>

theorem watch_loop_batches:
  "dispatched (fst (watch_loop ss [])) = map (filter includes_write) (arrivals ss [])
   \<and> (\<forall>b\<in>set (dispatched (fst (watch_loop ss []))). \<forall>ev\<in>set b.
         Op ev AND Write = Write \<and> Op ev \<notin> {Create, Remove, Rename, Chmod})"
proof -
  have eq: "dispatched (fst (watch_loop ss [])) = map (filter includes_write) (arrivals ss [])"
    using dispatched_watch_loop [of ss "[]"] by simp
  have "\<forall>b\<in>set (map (filter includes_write) (arrivals ss [])). \<forall>ev\<in>set b. includes_write ev"
    by auto
  then show ?thesis
    using eq includes_write_kinds by (auto simp: includes_write_def)
qed

theorem watch_loop_batches_witness:
  "dispatched (fst (watch_loop mixed_signals [])) =
     [[ev_write ''/src/a'', \<lparr>Name = ''/src/c'', Op = Create OR Write\<rparr>], []]
   \<and> arrivals mixed_signals [] =
     [[ev_write ''/src/a'', \<lparr>Name = ''/src/b'', Op = Create\<rparr>,
       \<lparr>Name = ''/src/c'', Op = Create OR Write\<rparr>, \<lparr>Name = ''/src/d'', Op = Chmod\<rparr>],
      [\<lparr>Name = ''/src/e'', Op = Remove\<rparr>]]"
  using watch_loop_batches [of mixed_signals]
  by (simp add: mixed_signals_def ev_write_def includes_write_def
        Create_def Write_def Remove_def Rename_def Chmod_def)

subsection \<open>The walk of the watch roots\<close>

lemma IsDir_iff [simp]: "IsDir (Node n k r cs) = (k = Directory)"
  by (cases k) (simp_all add: IsDir_def ModeDir_def ModeSymlink_def)

lemma hidden_dot [simp]: "\<not> hidden ''.''"
  by (simp add: hidden_def)

lemma walkDir_unfold:
  "walkDir w p (Node n k r cs) =
     (if hidden n then ([LogSkippedHidden p], if k = Directory then NoError else SkipDir)
      else if k \<noteq> Directory then ([], NoError)
      else if r then (add_actions w p @ fst (walkEntries w p cs), snd (walkEntries w p cs))
      else (add_actions w p @ LogWalkError p # add_actions w p, NoError))"
  by (simp add: walkFn_def hidden_def add_actions_def case_prod_unfold)

lemma walkEntries_Cons:
  "walkEntries w p (d # ds) =
     (if snd (walkDir w (p @ [entry_name d]) d) = NoError then
        (fst (walkDir w (p @ [entry_name d]) d) @ fst (walkEntries w p ds), snd (walkEntries w p ds))
      else if snd (walkDir w (p @ [entry_name d]) d) = SkipDir then
        (fst (walkDir w (p @ [entry_name d]) d), NoError)
      else walkDir w (p @ [entry_name d]) d)"
  by (simp add: case_prod_unfold)

lemma walkEntries_ok:
  assumes "\<And>c q. c \<in> set ds \<Longrightarrow> snd (walkDir w q c) = NoError \<or> snd (walkDir w q c) = SkipDir"
  shows "snd (walkEntries w p ds) = NoError"
  using assms by (induction ds) (auto simp: walkEntries_Cons simp del: walkEntries.simps(2))

lemma walkDir_ret: "snd (walkDir w p d) = NoError \<or> snd (walkDir w p d) = SkipDir"
proof (induction d arbitrary: p)
  case (Node n k r cs)
  have "snd (walkEntries w p cs) = NoError"
    by (rule walkEntries_ok) (use Node in auto)
  then show ?case
    by (simp add: walkDir_unfold del: walkDir.simps)
qed

lemma walkEntries_ret: "snd (walkEntries w p ds) = NoError"
  by (rule walkEntries_ok) (rule walkDir_ret)

lemma WalkDir_Root: "WalkDir w (Root k rd cs) = (fst (walkDir w [] (Node ''.'' k rd cs)), NoError)"
  using walkDir_ret [of w "[]" "Node ''.'' k rd cs"]
  by (auto simp: case_prod_unfold simp del: walkDir.simps)

lemma WalkDir_Root_Directory:
  "WalkDir w (Root Directory rd cs) =
     (if rd then (add_actions w [] @ fst (walkEntries w [] cs), NoError)
      else (add_actions w [] @ LogWalkError [] # add_actions w [], NoError))"
  by (simp add: WalkDir_Root walkDir_unfold del: walkDir.simps WalkDir.simps)

lemma WalkDir_ret: "snd (WalkDir w fsys) = NoError \<or> fsys = StatError"
  by (cases fsys) (simp_all add: WalkDir_Root del: WalkDir.simps)

lemma walkEntries_action:
  "a \<in> set (fst (walkEntries w p ds)) \<Longrightarrow>
     \<exists>c\<in>set ds. a \<in> set (fst (walkDir w (p @ [entry_name c]) c))"
  by (induction ds)
     (auto simp: walkEntries_Cons simp del: walkEntries.simps(2) walkDir.simps split: if_splits)








lemma walkDir_add_not_hidden:
  "WatcherAdd x \<in> set (fst (walkDir w p d)) \<Longrightarrow>
     \<exists>q. x = p @ q \<and> (\<forall>c\<in>set q. \<not> hidden c) \<and> \<not> hidden (entry_name d)"
proof (induction d arbitrary: p)
  case (Node n k r cs)
  show ?case
  proof (cases "WatcherAdd x \<in> set (fst (walkEntries w p cs))")
    case False
    with Node.prems have "x = p @ [] \<and> \<not> hidden n"
      by (auto simp: walkDir_unfold add_actions_def simp del: walkDir.simps split: if_splits)
    then show ?thesis by auto
  next
    case True
    then obtain c where c: "c \<in> set cs" "WatcherAdd x \<in> set (fst (walkDir w (p @ [entry_name c]) c))"
      using walkEntries_action by blast
    from Node.IH [OF c] obtain q where
      "x = (p @ [entry_name c]) @ q" "\<forall>c\<in>set q. \<not> hidden c" "\<not> hidden (entry_name c)"
      by blast
    moreover from Node.prems have "\<not> hidden n"
      by (auto simp: walkDir_unfold simp del: walkDir.simps split: if_splits)
    ultimately have "x = p @ (entry_name c # q) \<and> (\<forall>c\<in>set (entry_name c # q). \<not> hidden c) \<and> \<not> hidden n"
      by simp
    then show ?thesis by (metis node.sel(1))
  qed
qed

text \<open>
  The part of C4 that holds: no path that \<^verbatim>\<open>watch\<close> registers has a hidden component, so
  neither a hidden directory nor anything below one is registered.
\<close>

lemma registered_never_hidden:
  assumes "WatcherAdd p \<in> set (fst (WalkDir w (Root k rd cs)))"
  shows "\<forall>c\<in>set p. \<not> hidden c"
  using walkDir_add_not_hidden [of p w "[]" "Node ''.'' k rd cs"] assms
  by (auto simp: WalkDir_Root simp del: walkDir.simps WalkDir.simps)

text \<open>
  A hidden directory is passed over and the walk goes on with the next entry; a hidden
  entry that is not a directory ends the walk of the directory that lists it.
\<close>

lemma hidden_directory_skipped:
  "hidden n \<Longrightarrow>
     walkEntries w p (Node n Directory r cs # ds) =
       (LogSkippedHidden (p @ [n]) # fst (walkEntries w p ds), snd (walkEntries w p ds))"
  by (simp add: walkEntries_Cons walkDir_unfold del: walkEntries.simps(2) walkDir.simps)

lemma hidden_file_ends_directory:
  "hidden n \<Longrightarrow> k \<noteq> Directory \<Longrightarrow>
     walkEntries w p (Node n k r cs # ds) = ([LogSkippedHidden (p @ [n])], NoError)"
  by (simp add: walkEntries_Cons walkDir_unfold del: walkEntries.simps(2) walkDir.simps)

text \<open>
  C4. The walk of \<^verbatim>\<open>watch\<close> on a root that holds the hidden file \<^verbatim>\<open>.env\<close> and the directory
  \<^verbatim>\<open>src\<close>: the walk function answers \<^verbatim>\<open>SkipDir\<close> for the hidden file, which ends the walk of
  the root directory, and \<^verbatim>\<open>src\<close> is never registered. \<^verbatim>\<open>traverseDir\<close> on the same tree
  registers it.
\<close>

theorem hidden_file_ends_walk:
  "WalkDir accepting (Root Directory True env_tree) =
     ([WatcherAdd [], LogAdded [], LogSkippedHidden [''.env'']], NoError)
   \<and> traverseDir accepting [] (Node ''root'' Directory True env_tree) =
     ([TraverseAdd [''root''], TraverseLogAdded [''root''],
       TraverseAdd [''root'', ''src''], TraverseLogAdded [''root'', ''src'']], None)"
  by (simp add: env_tree_def accepting_def walkFn_def HasPrefix_def Let_def
        Perm_def ModePerm_def ModeSymlink_def ModeDir_def)



lemma walk_roots_ok:
  assumes "\<forall>dir\<in>set ds. fsys dir \<noteq> StatError"
  shows "snd (walk_roots w fsys ds) = NoError
       \<and> set (fst (walk_roots w fsys ds)) = (\<Union>dir\<in>set ds. Walk dir ` set (fst (WalkDir w (fsys dir))))"
  using assms
proof (induction ds)
  case Nil
  then show ?case by simp
next
  case (Cons dir ds)
  then have "snd (WalkDir w (fsys dir)) = NoError"
    using WalkDir_ret [of w "fsys dir"] by simp
  with Cons show ?case
    by (simp add: case_prod_unfold del: WalkDir.simps)
qed

text \<open>
  The part of C8 that holds, for watch roots that can be stat'ed: the walk of all roots ends
  without an error, and for every root that is a directory \<^verbatim>\<open>watcher.Add\<close> is called on the
  root of its walk (the path that \<^verbatim>\<open>fs.WalkDir\<close> names \<^verbatim>\<open>"."\<close>), and logged as added when the
  primitive accepts it. A root whose entries cannot be read gets that call all the same (once
  before the failed read and once more when the failure is reported to the walk function),
  none of its entries is visited, and its walk returns no error.
\<close>

lemma root_walk_when_stat:
  assumes "\<forall>dir\<in>set ds. fsys dir \<noteq> StatError"
  shows "snd (walk_roots w fsys ds) = NoError
       \<and> (\<forall>dir\<in>set ds. \<forall>rd cs. fsys dir = Root Directory rd cs \<longrightarrow>
            Walk dir (WatcherAdd []) \<in> set (fst (walk_roots w fsys ds))
            \<and> (w [] = None \<longrightarrow> Walk dir (LogAdded []) \<in> set (fst (walk_roots w fsys ds))))
       \<and> (\<forall>cs. WalkDir w (Root Directory False cs) =
            ([WatcherAdd [], if w [] \<noteq> None then LogAddError [] else LogAdded [],
              LogWalkError [],
              WatcherAdd [], if w [] \<noteq> None then LogAddError [] else LogAdded []], NoError))"
proof -
  have a: "WatcherAdd [] \<in> set (fst (WalkDir w (Root Directory rd cs)))
         \<and> (w [] = None \<longrightarrow> LogAdded [] \<in> set (fst (WalkDir w (Root Directory rd cs))))" for rd cs
    by (simp add: WalkDir_Root_Directory add_actions_def del: WalkDir.simps)
  have b: "WalkDir w (Root Directory False cs) =
            ([WatcherAdd [], if w [] \<noteq> None then LogAddError [] else LogAdded [],
              LogWalkError [],
              WatcherAdd [], if w [] \<noteq> None then LogAddError [] else LogAdded []], NoError)" for cs
    by (simp add: WalkDir_Root_Directory add_actions_def del: WalkDir.simps)
  from walk_roots_ok [OF assms, of w] a b show ?thesis
    by (simp del: WalkDir.simps) (metis image_eqI)
qed

lemma root_walk_when_stat_example:
  "one_root ''/src'' \<noteq> StatError
   \<and> walk_roots accepting one_root [''/src''] =
       ([Walk ''/src'' (WatcherAdd []), Walk ''/src'' (LogAdded []), Walk ''/src'' (LogWalkError []),
         Walk ''/src'' (WatcherAdd []), Walk ''/src'' (LogAdded [])], NoError)"
proof -
  have h: "\<forall>dir\<in>set [''/src'']. one_root dir \<noteq> StatError"
    by (simp add: one_root_def)
  show ?thesis
    using h root_walk_when_stat [OF h, of accepting]
    by (simp add: one_root_def accepting_def walkFn_def HasPrefix_def)
qed

text \<open>
  What \<^verbatim>\<open>traverseDir\<close> does differently: it reads the directory before it registers it, so a
  directory whose entries cannot be read is not registered; and its test for a symbolic
  link never holds, the permission bits holding no type bit (a link is passed over by the
  test for a directory before).
\<close>

lemma traverseDir_unreadable:
  "traverseDir w parent (Node n k False cs) = ([LogDirlistError (parent @ [n])], None)"
  by simp

lemma traverseChildren_symlink:
  "traverseChildren w current (Node n Symlink r cs # rest) = traverseChildren w current rest"
  by simp

lemma traverseDir_symlink_test: "Perm (Type d) AND ModeSymlink \<noteq> ModeSymlink"
  by (cases d; cases "entry_kind d")
     (simp_all add: Perm_def ModePerm_def ModeSymlink_def ModeDir_def)

text \<open>The strings that \<^verbatim>\<open>watcher.Add\<close> receives for the root and for entries below it.\<close>

lemma path_string_examples:
  "path_string [] = ''.'' \<and> path_string [''src''] = ''src'' \<and> path_string [''src'', ''pkg''] = ''src/pkg''"
  by simp

text \<open>
  A root that cannot be stat'ed: \<^verbatim>\<open>WalkDir\<close> calls the walk function with a nil entry, and
  the function panics.
\<close>

lemma WalkDir_StatError: "WalkDir w StatError = ([LogWalkError []], Panicked)"
  by (simp add: walkFn_def)


text \<open>
  C8. Two runs where the root directory is not registered. A watch root \<^verbatim>\<open>/src\<close> that cannot
  be searched (mode 0000, so that its entries cannot be enumerated and \<^verbatim>\<open>os.DirFS\<close> cannot
  stat \<^verbatim>\<open>"."\<close> in it): the walk function is called with a nil entry and panics on
  \<^verbatim>\<open>d.Name()\<close>; \<^verbatim>\<open>Start\<close> ends in the panic, \<^verbatim>\<open>watcher.Add\<close> was never called and the flag is
  false. A root that can be stat'ed but not read: the two calls of \<^verbatim>\<open>watcher.Add\<close> receive the
  string \<^verbatim>\<open>"."\<close>, the path inside \<^verbatim>\<open>os.DirFS(dir)\<close>, not the root directory. \<^verbatim>\<open>traverseDir\<close>
  returns \<^verbatim>\<open>nil\<close> on the unreadable root, and registers a readable root by its joined path.
\<close>

theorem root_not_registered:
  "Start locked_root_env New =
     ([LogWaitingForLima, CallInstance, CallInstanceConfig, CallCleanPath (Inr ''/src''),
       CallNewWatcher, Walk ''/src'' (LogWalkError []), CallWatcherClose],
      Panic, \<lparr>guest = Some quiet_guest, dirs = [''/src''], alive = False\<rparr>)
   \<and> added_strings (fst (WalkDir accepting (Root Directory False []))) = [''.'', ''.'']
   \<and> traverseDir accepting [] (Node ''/src'' Directory False []) =
       ([LogDirlistError [''/src'']], None)
   \<and> traverseDir accepting [] (Node ''/src'' Directory True []) =
       ([TraverseAdd [''/src''], TraverseLogAdded [''/src'']], None)"
  by (simp add: Start_def watch_def locked_root_env_def New_def accepting_def walkFn_def
        HasPrefix_def HasSuffix_def TrimSuffix_def Let_def)

subsection \<open>Start: the gate, the mounts and the alive flag\<close>


lemma waitForLima_actions:
  "a \<in> set (fst (waitForLima ss)) \<Longrightarrow> a = LogWaitingForLima \<or> a = CallInstance"
  by (induction ss rule: waitForLima.induct) (auto simp: case_prod_unfold)

lemma resolve_mounts_actions:
  "a \<in> set (fst (resolve_mounts ms f)) \<Longrightarrow> \<exists>m. a = CallCleanPath m"
  by (induction ms f rule: resolve_mounts.induct) (auto simp: case_prod_unfold)

lemma resolve_mounts_alive:
  "alive (snd (snd (resolve_mounts ms f))) = alive f"
  by (induction ms f rule: resolve_mounts.induct) (auto simp: case_prod_unfold)


lemma walk_roots_actions: "a \<in> set (fst (walk_roots w fsys ds)) \<Longrightarrow> is_walk a"
  by (induction ds) (auto simp: case_prod_unfold simp del: WalkDir.simps split: if_splits)

lemma walk_roots_ret:
  "snd (walk_roots w fsys ds) = NoError \<or> snd (walk_roots w fsys ds) = Panicked
   \<or> snd (walk_roots w fsys ds) = Fail ''error in directory walk''"
  by (induction ds) (auto simp: case_prod_unfold simp del: WalkDir.simps)

lemma watch_loop_actions:
  "a \<in> set (fst (watch_loop ss evs)) \<Longrightarrow> \<not> is_store a \<and> \<not> is_walk a"
  by (induction ss evs rule: watch_loop.induct) (auto simp: case_prod_unfold)

lemma watch_shape:
  assumes "watch e f = (tr, res, f')"
  shows "((\<forall>a\<in>set tr. \<not> is_store a) \<and> f' = f)
       \<or> (\<exists>post. tr = CallNewWatcher # fst (walk_roots (watcher_add e) (dirfs e) (dirs f))
                       @ StoreAlive True # post
            \<and> snd (walk_roots (watcher_add e) (dirfs e) (dirs f)) = NoError
            \<and> (\<forall>a\<in>set post. \<not> is_store a \<and> \<not> is_walk a)
            \<and> f' = f\<lparr>alive := True\<rparr>)"
proof (cases "new_watcher e")
  case (Some err)
  with assms show ?thesis by (auto simp: watch_def)
next
  case None
  let ?W = "walk_roots (watcher_add e) (dirfs e) (dirs f)"
  have nostore: "\<forall>a\<in>set (fst ?W). \<not> is_store a"
    using walk_roots_actions [of _ "watcher_add e" "dirfs e" "dirs f"] by (metis is_store.elims(2) is_walk.simps(7))
  consider (ok) "snd ?W = NoError" | (panic) "snd ?W = Panicked"
    | (fail) "snd ?W = Fail ''error in directory walk''"
    using walk_roots_ret by blast
  then show ?thesis
  proof cases
    case ok
    let ?L = "watch_loop (signals e) []"
    have "tr = CallNewWatcher # fst ?W @ StoreAlive True # (fst ?L @ (if snd ?L = Running then [] else [CallWatcherClose]))"
      and "f' = f\<lparr>alive := True\<rparr>"
      using assms None ok by (auto simp: watch_def case_prod_unfold)
    moreover have "\<forall>a\<in>set (fst ?L @ (if snd ?L = Running then [] else [CallWatcherClose])). \<not> is_store a \<and> \<not> is_walk a"
      using watch_loop_actions [of _ "signals e" "[]"] by auto
    ultimately show ?thesis using ok by blast
  next
    case panic
    with assms None nostore show ?thesis by (auto simp: watch_def case_prod_unfold)
  next
    case fail
    with assms None nostore show ?thesis by (auto simp: watch_def case_prod_unfold)
  qed
qed

lemma Start_shape:
  assumes "Start e f = (tr, res, f')"
  shows "((\<forall>a\<in>set tr. \<not> is_store a) \<and> alive f' = alive f)
       \<or> (\<exists>t0 post. tr = t0 @ fst (walk_roots (watcher_add e) (dirfs e) (dirs f'))
                       @ StoreAlive True # post
            \<and> snd (walk_roots (watcher_add e) (dirfs e) (dirs f')) = NoError
            \<and> (\<forall>a\<in>set t0. \<not> is_store a \<and> \<not> is_walk a)
            \<and> (\<forall>a\<in>set post. \<not> is_store a \<and> \<not> is_walk a)
            \<and> alive f')"
proof (cases "\<exists>g ms. ctx_guest e = Guest g \<and> snd (waitForLima (gate e)) \<and> instance_config e = Inr ms
          \<and> fst (snd (resolve_mounts ms (f\<lparr>guest := Some g\<rparr>))) = None")
  case False
  have "\<forall>a\<in>set (fst (waitForLima (gate e))). \<not> is_store a"
    using waitForLima_actions by fastforce
  moreover have "\<forall>a\<in>set (fst (resolve_mounts ms f1)). \<not> is_store a" for ms f1
    using resolve_mounts_actions by fastforce
  moreover have "alive (snd (snd (resolve_mounts ms (f\<lparr>guest := Some g\<rparr>)))) = alive f" for ms g
    by (simp add: resolve_mounts_alive)
  ultimately have "(\<forall>a\<in>set tr. \<not> is_store a) \<and> alive f' = alive f"
    using assms False
    by (auto simp: Start_def Let_def case_prod_unfold split: ctx_value.splits sum.splits option.splits if_splits bool.splits)
  then show ?thesis by blast
next
  case True
  then obtain g ms where h: "ctx_guest e = Guest g" "snd (waitForLima (gate e))"
      "instance_config e = Inr ms" "fst (snd (resolve_mounts ms (f\<lparr>guest := Some g\<rparr>))) = None"
    by blast
  let ?t1 = "fst (waitForLima (gate e))"
  let ?R = "resolve_mounts ms (f\<lparr>guest := Some g\<rparr>)"
  let ?f2 = "snd (snd ?R)"
  obtain t3 r3 f3 where w: "watch e ?f2 = (t3, r3, f3)"
    by (metis prod_cases3)
  have tr: "tr = ?t1 @ CallInstanceConfig # fst ?R @ t3" and f': "f' = f3"
    using assms h w by (auto simp: Start_def Let_def case_prod_unfold split: bool.splits option.splits)
  have pre: "\<forall>a\<in>set (?t1 @ CallInstanceConfig # fst ?R). \<not> is_store a \<and> \<not> is_walk a"
    using waitForLima_actions [of _ "gate e"] resolve_mounts_actions [of _ ms "f\<lparr>guest := Some g\<rparr>"]
    by fastforce
  from watch_shape [OF w] show ?thesis
  proof
    assume "(\<forall>a\<in>set t3. \<not> is_store a) \<and> f3 = ?f2"
    with tr f' pre have "(\<forall>a\<in>set tr. \<not> is_store a) \<and> alive f' = alive f"
      by (auto simp: resolve_mounts_alive)
    then show ?thesis by blast
  next
    assume "\<exists>post. t3 = CallNewWatcher # fst (walk_roots (watcher_add e) (dirfs e) (dirs ?f2))
                       @ StoreAlive True # post
            \<and> snd (walk_roots (watcher_add e) (dirfs e) (dirs ?f2)) = NoError
            \<and> (\<forall>a\<in>set post. \<not> is_store a \<and> \<not> is_walk a)
            \<and> f3 = ?f2\<lparr>alive := True\<rparr>"
    then obtain post where p: "t3 = CallNewWatcher # fst (walk_roots (watcher_add e) (dirfs e) (dirs ?f2))
                       @ StoreAlive True # post"
        "snd (walk_roots (watcher_add e) (dirfs e) (dirs ?f2)) = NoError"
        "\<forall>a\<in>set post. \<not> is_store a \<and> \<not> is_walk a" "f3 = ?f2\<lparr>alive := True\<rparr>"
      by blast
    have d: "dirs f' = dirs ?f2" using f' p(4) by simp
    have "tr = (?t1 @ CallInstanceConfig # fst ?R @ [CallNewWatcher])
                 @ fst (walk_roots (watcher_add e) (dirfs e) (dirs f')) @ StoreAlive True # post"
      using tr p(1) d by simp
    moreover have "\<forall>a\<in>set (?t1 @ CallInstanceConfig # fst ?R @ [CallNewWatcher]). \<not> is_store a \<and> \<not> is_walk a"
      using pre by simp
    moreover have "alive f'" using f' p(4) by simp
    ultimately show ?thesis using p(2,3) d by metis
  qed
qed

lemma flag_after_stores:
  "\<forall>a\<in>set xs. is_store a \<longrightarrow> a = StoreAlive True \<Longrightarrow>
     flag_after b xs = (b \<or> StoreAlive True \<in> set xs)"
proof (induction xs arbitrary: b)
  case Nil
  then show ?case by simp
next
  case (Cons a xs)
  then show ?case by (cases a) auto
qed


lemma watch_store_iff:
  assumes "watch e f = (tr, res, f')"
  shows "dirs f' = dirs f \<and> CallNewWatcher \<in> set tr
       \<and> (StoreAlive True \<in> set tr) =
           (new_watcher e = None \<and> snd (walk_roots (watcher_add e) (dirfs e) (dirs f)) = NoError)"
proof (cases "new_watcher e")
  case (Some err)
  with assms show ?thesis by (auto simp: watch_def)
next
  case None
  let ?W = "walk_roots (watcher_add e) (dirfs e) (dirs f)"
  have nostore: "StoreAlive True \<notin> set (fst ?W)"
    using walk_roots_actions [of "StoreAlive True" "watcher_add e" "dirfs e" "dirs f"] by auto
  consider (ok) "snd ?W = NoError" | (panic) "snd ?W = Panicked"
    | (fail) "snd ?W = Fail ''error in directory walk''"
    using walk_roots_ret by blast
  then show ?thesis
  proof cases
    case ok
    with assms None show ?thesis by (auto simp: watch_def case_prod_unfold)
  next
    case panic
    with assms None nostore show ?thesis by (auto simp: watch_def case_prod_unfold)
  next
    case fail
    with assms None nostore show ?thesis by (auto simp: watch_def case_prod_unfold)
  qed
qed

lemma Start_store_iff:
  assumes "Start e f = (tr, res, f')"
  shows "(StoreAlive True \<in> set tr) =
           (CallNewWatcher \<in> set tr \<and> new_watcher e = None
            \<and> snd (walk_roots (watcher_add e) (dirfs e) (dirs f')) = NoError)"
proof (cases "\<exists>g ms. ctx_guest e = Guest g \<and> snd (waitForLima (gate e)) \<and> instance_config e = Inr ms
          \<and> fst (snd (resolve_mounts ms (f\<lparr>guest := Some g\<rparr>))) = None")
  case False
  have g: "StoreAlive True \<notin> set (fst (waitForLima (gate e)))"
      "CallNewWatcher \<notin> set (fst (waitForLima (gate e)))"
    using waitForLima_actions [of _ "gate e"] by blast+
  have r: "StoreAlive True \<notin> set (fst (resolve_mounts ms f1))"
      "CallNewWatcher \<notin> set (fst (resolve_mounts ms f1))" for ms f1
    using resolve_mounts_actions [of _ ms f1] by blast+
  have "StoreAlive True \<notin> set tr \<and> CallNewWatcher \<notin> set tr"
    using assms False
    by (auto simp: Start_def Let_def case_prod_unfold g r
          split: ctx_value.splits sum.splits option.splits if_splits bool.splits)
  then show ?thesis by blast
next
  case True
  then obtain g ms where h: "ctx_guest e = Guest g" "snd (waitForLima (gate e))"
      "instance_config e = Inr ms" "fst (snd (resolve_mounts ms (f\<lparr>guest := Some g\<rparr>))) = None"
    by blast
  let ?t1 = "fst (waitForLima (gate e))"
  let ?R = "resolve_mounts ms (f\<lparr>guest := Some g\<rparr>)"
  let ?f2 = "snd (snd ?R)"
  obtain t3 r3 f3 where w: "watch e ?f2 = (t3, r3, f3)"
    by (metis prod_cases3)
  have tr: "tr = ?t1 @ CallInstanceConfig # fst ?R @ t3" and f': "f' = f3"
    using assms h w by (auto simp: Start_def Let_def case_prod_unfold split: bool.splits option.splits)
  have pre: "StoreAlive True \<notin> set (?t1 @ CallInstanceConfig # fst ?R)"
    using waitForLima_actions [of "StoreAlive True" "gate e"]
      resolve_mounts_actions [of "StoreAlive True" ms "f\<lparr>guest := Some g\<rparr>"]
    by auto
  from watch_store_iff [OF w] have
    d: "dirs f3 = dirs ?f2" and c: "CallNewWatcher \<in> set t3"
    and s: "(StoreAlive True \<in> set t3) =
           (new_watcher e = None \<and> snd (walk_roots (watcher_add e) (dirfs e) (dirs ?f2)) = NoError)"
    by blast+
  have "(StoreAlive True \<in> set tr) = (StoreAlive True \<in> set t3)"
    unfolding tr using pre by auto
  moreover have "CallNewWatcher \<in> set tr"
    unfolding tr using c by simp
  ultimately show ?thesis
    using s d f' by simp
qed


text \<open>
  The course of the flag over a run of \<^verbatim>\<open>Start\<close> from a process whose flag is false.
\<close>

lemma alive_flag_course:
  assumes "\<not> alive f" and "Start e f = (tr, res, f')"
  shows "(\<forall>n. Alive (f\<lparr>alive := flag_after (alive f) (take n tr)\<rparr>) =
              (if StoreAlive True \<in> set (take n tr) then None else Some ''not running''))
       \<and> StoreAlive False \<notin> set tr
       \<and> alive f' = (StoreAlive True \<in> set tr)
       \<and> (StoreAlive True \<in> set tr \<longrightarrow>
            (\<exists>t0 post.
                tr = t0 @ fst (walk_roots (watcher_add e) (dirfs e) (dirs f')) @ StoreAlive True # post
              \<and> snd (walk_roots (watcher_add e) (dirfs e) (dirs f')) = NoError
              \<and> (\<forall>a\<in>set (t0 @ fst (walk_roots (watcher_add e) (dirfs e) (dirs f'))). \<not> is_store a)
              \<and> (\<forall>a\<in>set t0. \<not> is_walk a)
              \<and> (\<forall>a\<in>set post. \<not> is_store a \<and> \<not> is_walk a)))"
proof -
  let ?W = "fst (walk_roots (watcher_add e) (dirfs e) (dirs f'))"
  have walk_nostore: "\<not> is_store a" if "a \<in> set ?W" for a
  proof -
    from that have "is_walk a" by (rule walk_roots_actions)
    then show ?thesis by (cases a) simp_all
  qed
  have timeline: "Alive (f\<lparr>alive := flag_after (alive f) (take n tr)\<rparr>) =
              (if StoreAlive True \<in> set (take n tr) then None else Some ''not running'')"
    if only_true: "\<And>a. a \<in> set tr \<Longrightarrow> is_store a \<Longrightarrow> a = StoreAlive True" for n
  proof -
    have "\<forall>a\<in>set (take n tr). is_store a \<longrightarrow> a = StoreAlive True"
    proof (intro ballI impI)
      fix a assume "a \<in> set (take n tr)" "is_store a"
      from this(1) have "a \<in> set tr" by (rule in_set_takeD)
      then show "a = StoreAlive True" using \<open>is_store a\<close> by (rule only_true)
    qed
    from flag_after_stores [OF this, of "alive f"] assms(1) show ?thesis
      by (simp add: Alive_def)
  qed
  from Start_shape [OF assms(2)]
  consider (never) "\<forall>a\<in>set tr. \<not> is_store a" "alive f' = alive f"
    | (stored) t0 post where "tr = t0 @ ?W @ StoreAlive True # post"
        "snd (walk_roots (watcher_add e) (dirfs e) (dirs f')) = NoError"
        "\<forall>a\<in>set t0. \<not> is_store a \<and> \<not> is_walk a"
        "\<forall>a\<in>set post. \<not> is_store a \<and> \<not> is_walk a" "alive f'"
    by blast
  then show ?thesis
  proof cases
    case never
    have nt: "StoreAlive True \<notin> set tr" and nf: "StoreAlive False \<notin> set tr"
      using never(1) is_store.simps(1) by blast+
    have "\<And>a. a \<in> set tr \<Longrightarrow> is_store a \<Longrightarrow> a = StoreAlive True"
      using never(1) by simp
    then have "\<forall>n. Alive (f\<lparr>alive := flag_after (alive f) (take n tr)\<rparr>) =
              (if StoreAlive True \<in> set (take n tr) then None else Some ''not running'')"
      using timeline by simp
    moreover have "alive f' = (StoreAlive True \<in> set tr)"
      using nt never(2) assms(1) by simp
    ultimately show ?thesis
      using nt nf by simp
  next
    case stored
    have pre: "\<forall>a\<in>set (t0 @ ?W). \<not> is_store a"
      using stored(3) walk_nostore by auto
    have t0: "\<forall>a\<in>set t0. \<not> is_walk a"
      using stored(3) by simp
    have only_true: "a = StoreAlive True" if "a \<in> set tr" "is_store a" for a
    proof -
      from that(1) have "a \<in> set (t0 @ ?W) \<or> a = StoreAlive True \<or> a \<in> set post"
        unfolding stored(1) by auto
      with pre stored(4) that(2) show ?thesis by blast
    qed
    have nf: "StoreAlive False \<notin> set tr"
    proof
      assume "StoreAlive False \<in> set tr"
      then have "StoreAlive False = StoreAlive True"
        by (rule only_true) simp
      then show False by simp
    qed
    have c1: "\<forall>n. Alive (f\<lparr>alive := flag_after (alive f) (take n tr)\<rparr>) =
              (if StoreAlive True \<in> set (take n tr) then None else Some ''not running'')"
      using timeline only_true by simp
    have c3: "alive f' = (StoreAlive True \<in> set tr)"
      unfolding stored(1) using stored(5) by simp
    have c4: "\<exists>t0 post. tr = t0 @ ?W @ StoreAlive True # post
              \<and> snd (walk_roots (watcher_add e) (dirfs e) (dirs f')) = NoError
              \<and> (\<forall>a\<in>set (t0 @ ?W). \<not> is_store a)
              \<and> (\<forall>a\<in>set t0. \<not> is_walk a)
              \<and> (\<forall>a\<in>set post. \<not> is_store a \<and> \<not> is_walk a)"
      by (rule exI [of _ t0], rule exI [of _ post]) (intro conjI stored(1,2,4) pre t0)
    show ?thesis
      by (intro conjI impI c1 nf c3 c4)
  qed
qed

text \<open>
  C3. From a process whose flag is false, at every point of a run of \<^verbatim>\<open>Start\<close> (after any
  number of its actions) \<^verbatim>\<open>Alive\<close> returns the error exactly as long as the store of true has
  not happened, and \<^verbatim>\<open>nil\<close> from then on. False is never stored. The store of true happens
  exactly when the registration completes, that is when \<^verbatim>\<open>Start\<close> got as far as creating the
  watcher and the walk of all watch roots ended without error; it then is the only store of
  the run and comes directly after that walk: no store and no action of a walk follows it,
  no store precedes it. When the registration does not complete nothing is stored.
\<close>

theorem alive_timeline:
  assumes "\<not> alive f" and "Start e f = (tr, res, f')"
  shows "(\<forall>n. Alive (f\<lparr>alive := flag_after (alive f) (take n tr)\<rparr>) =
              (if StoreAlive True \<in> set (take n tr) then None else Some ''not running''))
       \<and> StoreAlive False \<notin> set tr
       \<and> alive f' = (StoreAlive True \<in> set tr)
       \<and> (StoreAlive True \<in> set tr \<longrightarrow>
            (\<exists>t0 post.
                tr = t0 @ fst (walk_roots (watcher_add e) (dirfs e) (dirs f')) @ StoreAlive True # post
              \<and> snd (walk_roots (watcher_add e) (dirfs e) (dirs f')) = NoError
              \<and> (\<forall>a\<in>set (t0 @ fst (walk_roots (watcher_add e) (dirfs e) (dirs f'))). \<not> is_store a)
              \<and> (\<forall>a\<in>set t0. \<not> is_walk a)
              \<and> (\<forall>a\<in>set post. \<not> is_store a \<and> \<not> is_walk a)))
       \<and> (StoreAlive True \<in> set tr) =
           (CallNewWatcher \<in> set tr \<and> new_watcher e = None
            \<and> snd (walk_roots (watcher_add e) (dirfs e) (dirs f')) = NoError)
       \<and> filter is_store tr =
           (if CallNewWatcher \<in> set tr \<and> new_watcher e = None
               \<and> snd (walk_roots (watcher_add e) (dirfs e) (dirs f')) = NoError
            then [StoreAlive True] else [])"
proof -
  let ?W = "fst (walk_roots (watcher_add e) (dirfs e) (dirs f'))"
  let ?done = "CallNewWatcher \<in> set tr \<and> new_watcher e = None
            \<and> snd (walk_roots (watcher_add e) (dirfs e) (dirs f')) = NoError"
  note course = alive_flag_course [OF assms]
  have iff: "(StoreAlive True \<in> set tr) = ?done"
    using assms(2) by (rule Start_store_iff)
  have only_true: "a = StoreAlive True" if "a \<in> set tr" "is_store a" for a
  proof (cases a)
    case (StoreAlive v)
    with that(1) course have "v" by (cases v) auto
    with StoreAlive show ?thesis by simp
  qed (use that(2) in simp_all)
  have stores: "filter is_store tr = (if ?done then [StoreAlive True] else [])"
  proof (cases "StoreAlive True \<in> set tr")
    case False
    then have "\<forall>a\<in>set tr. \<not> is_store a"
      using only_true by blast
    then have "filter is_store tr = []" by simp
    with False iff show ?thesis by simp
  next
    case True
    with course obtain t0 post where
      tr: "tr = t0 @ ?W @ StoreAlive True # post"
      and pre: "\<forall>a\<in>set (t0 @ ?W). \<not> is_store a"
      and post: "\<forall>a\<in>set post. \<not> is_store a \<and> \<not> is_walk a"
      by blast
    from pre have "filter is_store (t0 @ ?W) = []" by simp
    moreover from post have "filter is_store post = []" by simp
    ultimately have "filter is_store ((t0 @ ?W) @ StoreAlive True # post) = [StoreAlive True]"
      by (simp only: filter_append filter.simps is_store.simps if_True append_Nil)
    then have "filter is_store tr = [StoreAlive True]"
      unfolding tr by simp
    with True iff show ?thesis by simp
  qed
  note c1 = course [THEN conjunct1]
  note c2 = course [THEN conjunct2, THEN conjunct1]
  note c3 = course [THEN conjunct2, THEN conjunct2, THEN conjunct1]
  note c4 = course [THEN conjunct2, THEN conjunct2, THEN conjunct2]
  show ?thesis
    by (intro conjI c1 c2 c3 c4 iff stores)
qed

theorem alive_timeline_witness:
  "\<not> alive New
   \<and> fst (Start running_env New) =
       [LogWaitingForLima, CallInstance, LogWaitingForLima, CallInstance,
        CallInstanceConfig, CallCleanPath (Inr ''/src/''), CallNewWatcher,
        Walk ''/src'' (WatcherAdd []), Walk ''/src'' (LogAdded []),
        Walk ''/src'' (WatcherAdd [''a'']), Walk ''/src'' (LogAdded [''a'']),
        StoreAlive True, LogGotEvent (ev_write ''a/x''), GoDispatch [ev_write ''a/x''],
        CallWatcherClose]
   \<and> Alive (New\<lparr>alive := flag_after (alive New) (take 11 (fst (Start running_env New)))\<rparr>) =
       Some ''not running''
   \<and> Alive (New\<lparr>alive := flag_after (alive New) (take 12 (fst (Start running_env New)))\<rparr>) = None
   \<and> alive (snd (snd (Start running_env New)))
   \<and> new_watcher running_env = None
   \<and> snd (walk_roots (watcher_add running_env) (dirfs running_env) [''/src'']) = NoError
   \<and> filter is_store (fst (Start running_env New)) = [StoreAlive True]"
proof -
  have h: "\<not> alive New" by (simp add: New_def)
  have run: "Start running_env New =
      ([LogWaitingForLima, CallInstance, LogWaitingForLima, CallInstance,
        CallInstanceConfig, CallCleanPath (Inr ''/src/''), CallNewWatcher,
        Walk ''/src'' (WatcherAdd []), Walk ''/src'' (LogAdded []),
        Walk ''/src'' (WatcherAdd [''a'']), Walk ''/src'' (LogAdded [''a'']),
        StoreAlive True, LogGotEvent (ev_write ''a/x''), GoDispatch [ev_write ''a/x''],
        CallWatcherClose],
       Returned None, \<lparr>guest = Some quiet_guest, dirs = [''/src''], alive = True\<rparr>)"
    by (simp add: Start_def watch_def running_env_def New_def accepting_def walkFn_def
          HasPrefix_def HasSuffix_def TrimSuffix_def ev_write_def Write_def)
  have walk: "new_watcher running_env = None
      \<and> snd (walk_roots (watcher_add running_env) (dirfs running_env) [''/src'']) = NoError"
    by (simp add: running_env_def accepting_def walkFn_def HasPrefix_def)
  note t = alive_timeline [OF h run]
  note course = t [THEN conjunct1, rule_format]
  note stores = t [THEN conjunct2, THEN conjunct2, THEN conjunct2, THEN conjunct2, THEN conjunct2]
  from course [of 11] course [of 12] stores walk h show ?thesis
    by (simp add: run)
qed





end
